theory Spec2Isabelle
  imports Main
begin

section \<open>JavaScript strings, numbers and regular expressions\<close>

text \<open>
  A JavaScript string is a sequence of UTF-16 code units. Here a string is a \<open>char list\<close>
  and a \<open>char\<close> stands for a code unit below 256; every trigger token, delimiter and
  expansion of the plugin lies in that range. The backslash cannot be written inside a
  string literal, so it is named.
\<close>

abbreviation backslash :: char where
  "backslash \<equiv> CHR 0x5C"

text \<open>The class \<open>\s\<close>: tab, line feed, vertical tab, form feed, carriage return, space and
  the no-break space (the code units of the class below 256).\<close>

definition is_space :: "char \<Rightarrow> bool" where
  "is_space c =
     (c = CHR 0x09 \<or> c = CHR 0x0A \<or> c = CHR 0x0B \<or> c = CHR 0x0C \<or> c = CHR 0x0D
      \<or> c = CHR 0x20 \<or> c = CHR 0xA0)"

text \<open>Canonicalisation under the \<open>i\<close> flag (without \<open>u\<close>): a code unit is compared by its
  upper-case form, and a code unit from 128 on is never mapped below 128, so on the
  ASCII characters of the patterns only the 26 letters are folded.\<close>

definition canonicalize :: "char \<Rightarrow> char" where
  "canonicalize c =
     (case map_of (zip ''abcdefghijklmnopqrstuvwxyz'' ''ABCDEFGHIJKLMNOPQRSTUVWXYZ'') c of
        Some u \<Rightarrow> u
      | None \<Rightarrow> c)"

definition digit_value :: "char \<Rightarrow> int option" where
  "digit_value c = map_of (zip ''0123456789'' [0, 1, 2, 3, 4, 5, 6, 7, 8, 9]) c"

definition digit_char :: "nat \<Rightarrow> char" where
  "digit_char d = ''0123456789'' ! d"

fun show_nat :: "nat \<Rightarrow> string" where
  "show_nat n =
     (if n < 10 then [digit_char n] else show_nat (n div 10) @ [digit_char (n mod 10)])"

text \<open>The numbers the plugin computes with: an integer or \<open>NaN\<close>.\<close>

datatype jsnumber = Num int | NaN

text \<open>\<open>s[i]\<close>: the code unit at index \<open>i\<close>, \<open>undefined\<close> outside the string.\<close>

definition char_at :: "string \<Rightarrow> int \<Rightarrow> char option" where
  "char_at s i = (if 0 \<le> i \<and> i < int (length s) then Some (s ! nat i) else None)"

text \<open>\<open>Number(s[i])\<close> on one code unit: \<open>undefined\<close> gives \<open>NaN\<close>, a white-space unit 0,
  a decimal digit its value, anything else \<open>NaN\<close>.\<close>

definition Number_of :: "char option \<Rightarrow> jsnumber" where
  "Number_of u =
     (case u of
        None \<Rightarrow> NaN
      | Some c \<Rightarrow>
          (if is_space c then Num 0
           else case digit_value c of Some d \<Rightarrow> Num d | None \<Rightarrow> NaN))"

definition js_sub :: "jsnumber \<Rightarrow> int \<Rightarrow> jsnumber" where
  "js_sub a b = (case a of Num n \<Rightarrow> Num (n - b) | NaN \<Rightarrow> NaN)"

definition js_gt :: "jsnumber \<Rightarrow> int \<Rightarrow> bool" where
  "js_gt a b = (case a of Num n \<Rightarrow> b < n | NaN \<Rightarrow> False)"

text \<open>A number inside a template literal.\<close>

definition number_to_string :: "jsnumber \<Rightarrow> string" where
  "number_to_string a =
     (case a of
        Num n \<Rightarrow> (if n < 0 then ''-'' @ show_nat (nat (- n)) else show_nat (nat n))
      | NaN \<Rightarrow> ''NaN'')"

datatype error = RangeError

text \<open>\<open>String.prototype.repeat\<close>: a negative count throws, \<open>NaN\<close> counts as 0.\<close>

definition js_repeat :: "string \<Rightarrow> jsnumber \<Rightarrow> error + string" where
  "js_repeat s count =
     (case count of
        NaN \<Rightarrow> Inr []
      | Num n \<Rightarrow> (if n < 0 then Inl RangeError else Inr (concat (replicate (nat n) s))))"

text \<open>The regular expressions of the rule list are sequences of literal characters and
  of the class \<open>[0-9]\<close>; each atom consumes one code unit. A \<open>RegExp\<close> object carries its
  flags and the mutable \<open>lastIndex\<close>.\<close>

datatype atom = Chr char | Digit

record regexp =
  source :: "atom list"
  ignoreCase :: bool
  global :: bool
  lastIndex :: nat

definition atom_matches :: "bool \<Rightarrow> atom \<Rightarrow> char \<Rightarrow> bool" where
  "atom_matches ic a c =
     (case a of
        Chr x \<Rightarrow> (if ic then canonicalize c = canonicalize x else c = x)
      | Digit \<Rightarrow> digit_value c \<noteq> None)"

fun matches_here :: "bool \<Rightarrow> atom list \<Rightarrow> string \<Rightarrow> bool" where
  "matches_here ic [] s = True"
| "matches_here ic (a # as) [] = False"
| "matches_here ic (a # as) (c # cs) = (atom_matches ic a c \<and> matches_here ic as cs)"

text \<open>The leftmost position of \<open>s\<close> at which the pattern matches.\<close>

fun search :: "bool \<Rightarrow> atom list \<Rightarrow> string \<Rightarrow> nat option" where
  "search ic p [] = (if matches_here ic p [] then Some 0 else None)"
| "search ic p (c # cs) =
     (if matches_here ic p (c # cs) then Some 0 else map_option Suc (search ic p cs))"

text \<open>\<open>RegExp.prototype.test\<close>: a global expression starts the search at its
  \<open>lastIndex\<close>, stores the end of the match there on success and resets it to 0 on
  failure; an expression without the flag searches from 0 and stores nothing.\<close>

definition regex_test :: "regexp \<Rightarrow> string \<Rightarrow> bool \<times> regexp" where
  "regex_test r s =
     (let i = (if global r then lastIndex r else 0) in
      if length s < i then (False, if global r then r\<lparr>lastIndex := 0\<rparr> else r)
      else
        (case search (ignoreCase r) (source r) (drop i s) of
           None \<Rightarrow> (False, if global r then r\<lparr>lastIndex := 0\<rparr> else r)
         | Some k \<Rightarrow>
             (True, if global r then r\<lparr>lastIndex := i + k + length (source r)\<rparr> else r)))"

text \<open>\<open>String.prototype.split\<close> with a regular expression that matches no empty string:
  the matcher gives the length of the match at the head of the rest, the text between two
  matches is one segment.\<close>

function js_split_aux :: "(string \<Rightarrow> nat option) \<Rightarrow> string \<Rightarrow> string \<Rightarrow> string list" where
  "js_split_aux m acc [] = [rev acc]"
| "js_split_aux m acc (c # cs) =
     (case m (c # cs) of
        Some (Suc k) \<Rightarrow> rev acc # js_split_aux m [] (drop k cs)
      | _ \<Rightarrow> js_split_aux m (c # acc) cs)"
  by pat_completeness auto
termination
  by (relation "measure (\<lambda>(m, acc, s). length s)") auto

definition js_split :: "(string \<Rightarrow> nat option) \<Rightarrow> string \<Rightarrow> string list" where
  "js_split m s = js_split_aux m [] s"

text \<open>The expression \<open>/\n|\${2}/\<close>: a line feed, or else two dollar signs.\<close>

fun match_newline_or_dollars :: "string \<Rightarrow> nat option" where
  "match_newline_or_dollars [] = None"
| "match_newline_or_dollars (c # cs) =
     (if c = CHR ''\<newline>'' then Some 1
      else if c = CHR ''$'' \<and> take 1 cs = ''$'' then Some 2
      else None)"

text \<open>The expression \<open>/\s+/\<close>: the longest run of white space, of one unit at least.\<close>

definition match_spaces :: "string \<Rightarrow> nat option" where
  "match_spaces s = (case length (takeWhile is_space s) of 0 \<Rightarrow> None | Suc n \<Rightarrow> Some (Suc n))"

section \<open>The host editor\<close>

text \<open>
  The editor belongs to the host application. The plugin reads the cursor and a range of
  text and issues two kinds of calls, \<open>replaceRange\<close> and \<open>setCursor\<close>. A document is its
  list of lines (no line holds a line feed, and there is one line at least); a position
  is a pair of numbers as the plugin computes them, so a column may be negative.
\<close>

record pos =
  line :: int
  ch :: int

record editor =
  doc :: "string list"
  cursor :: pos

datatype call = ReplaceRange string pos pos | SetCursor pos

definition lineAt :: "string list \<Rightarrow> nat \<Rightarrow> string" where
  "lineAt d l = (if l < length d then d ! l else [])"

text \<open>A position outside the document is clipped to it, the way CodeMirror clips.\<close>

definition clipPos :: "string list \<Rightarrow> pos \<Rightarrow> nat \<times> nat" where
  "clipPos d p =
     (if line p < 0 then (0, 0)
      else if int (length d) \<le> line p then (length d - 1, length (lineAt d (length d - 1)))
      else (nat (line p), min (nat (ch p)) (length (lineAt d (nat (line p))))))"

fun joinLines :: "string list \<Rightarrow> string" where
  "joinLines [] = []"
| "joinLines [x] = x"
| "joinLines (x # y # ys) = x @ CHR ''\<newline>'' # joinLines (y # ys)"

fun splitLines :: "string \<Rightarrow> string list" where
  "splitLines [] = [[]]"
| "splitLines (c # cs) =
     (if c = CHR ''\<newline>'' then [] # splitLines cs
      else (case splitLines cs of [] \<Rightarrow> [[c]] | l # ls \<Rightarrow> (c # l) # ls))"

definition getValue :: "editor \<Rightarrow> string" where
  "getValue ed = joinLines (doc ed)"

definition getCursor :: "editor \<Rightarrow> pos" where
  "getCursor ed = cursor ed"

definition getRange :: "pos \<Rightarrow> pos \<Rightarrow> editor \<Rightarrow> string" where
  "getRange from to ed =
     (let d = doc ed; (l1, c1) = clipPos d from; (l2, c2) = clipPos d to in
      if l1 = l2 then take (c2 - c1) (drop c1 (lineAt d l1))
      else if l2 < l1 then []
      else joinLines (drop c1 (lineAt d l1) # take (l2 - l1 - 1) (drop (Suc l1) d)
             @ [take c2 (lineAt d l2)]))"

text \<open>The lines that replace a range: the text before the range on its first line, the
  inserted lines, and the text after the range on its last line.\<close>

definition splice_lines :: "string \<Rightarrow> string list \<Rightarrow> string \<Rightarrow> string list" where
  "splice_lines pre ns post =
     (let a = (pre @ hd ns) # tl ns in butlast a @ [last a @ post])"

definition before :: "nat \<times> nat \<Rightarrow> nat \<times> nat \<Rightarrow> bool" where
  "before a b = (fst a < fst b \<or> fst a = fst b \<and> snd a < snd b)"

text \<open>\<open>replaceRange\<close> leaves the cursor to the host; the model keeps the cursor field
  as it is until \<open>setCursor\<close> is called.\<close>

definition replaceRange :: "string \<Rightarrow> pos \<Rightarrow> pos \<Rightarrow> editor \<Rightarrow> editor" where
  "replaceRange s from to ed =
     (let d = doc ed; a = clipPos d from; b = clipPos d to;
          (l1, c1) = (if before b a then b else a);
          (l2, c2) = (if before b a then a else b)
      in ed\<lparr>doc := take l1 d
                 @ splice_lines (take c1 (lineAt d l1)) (splitLines s) (drop c2 (lineAt d l2))
                 @ drop (Suc l2) d\<rparr>)"

definition setCursor :: "pos \<Rightarrow> editor \<Rightarrow> editor" where
  "setCursor p ed = ed\<lparr>cursor := p\<rparr>"

fun run_call :: "call \<Rightarrow> editor \<Rightarrow> editor" where
  "run_call (ReplaceRange s from to) ed = replaceRange s from to ed"
| "run_call (SetCursor p) ed = setCursor p ed"

definition run_calls :: "call list \<Rightarrow> editor \<Rightarrow> editor" where
  "run_calls cs ed = fold run_call cs ed"

section \<open>The plugin\<close>

record status_bar =
  visible :: bool
  label :: string

record plugin =
  statusBarItem :: "status_bar option"
  patterns :: "regexp list"

definition rx :: "atom list \<Rightarrow> regexp" where
  "rx as = \<lparr>source = as, ignoreCase = True, global = True, lastIndex = 0\<rparr>"

definition rule_sources :: "atom list list" where
  "rule_sources =
     [map Chr ''arr'' @ [Digit],
      [Chr CHR ''m'', Digit, Chr CHR '','', Digit],
      map Chr (backslash # ''pars''),
      map Chr (backslash # ''code''),
      map Chr (backslash # ''prg:js''),
      map Chr (backslash # ''prg:py''),
      map Chr (backslash # ''prg:cpp''),
      map Chr (backslash # ''prg:java''),
      map Chr (backslash # ''prg:psc''),
      map Chr (backslash # ''sys''),
      map Chr (backslash # ''defn'')]"

text \<open>The plugin once loaded: the status bar item exists with an empty text, and the
  eleven expressions of the rule list are fresh.\<close>

definition onload :: plugin where
  "onload = \<lparr>statusBarItem = Some \<lparr>visible = True, label = []\<rparr>,
             patterns = map rx rule_sources\<rparr>"

definition on_item :: "(status_bar \<Rightarrow> status_bar) \<Rightarrow> plugin \<Rightarrow> plugin" where
  "on_item f p = p\<lparr>statusBarItem := map_option f (statusBarItem p)\<rparr>"

definition hide :: "status_bar \<Rightarrow> status_bar" where
  "hide b = b\<lparr>visible := False\<rparr>"

definition show_item :: "status_bar \<Rightarrow> status_bar" where
  "show_item b = b\<lparr>visible := True\<rparr>"

definition setText :: "string \<Rightarrow> status_bar \<Rightarrow> status_bar" where
  "setText t b = b\<lparr>label := t\<rparr>"

text \<open>\<open>!fileContent\<close> holds of \<open>undefined\<close> and of the empty string.\<close>

definition falsy :: "string option \<Rightarrow> bool" where
  "falsy c = (case c of None \<Rightarrow> True | Some s \<Rightarrow> s = [])"

definition updateLineCount :: "string option \<Rightarrow> plugin \<Rightarrow> plugin" where
  "updateLineCount fileContent p =
     (if falsy fileContent then on_item hide p
      else
        (let p1 = on_item show_item p;
             lines = js_split match_newline_or_dollars (the fileContent);
             amount = length lines;
             amount = (if lines ! (amount - 1) = [] then amount - 1 else amount)
         in on_item (setText (''Lines: '' @ show_nat amount)) p1))"

text \<open>The body of the \<open>switch\<close>: the calls one rule makes on the editor, from the token
  and the cursor position read before the loop.\<close>

definition fence :: "string \<Rightarrow> int \<Rightarrow> pos \<Rightarrow> call list" where
  "fence newWord n cursorPos =
     [ReplaceRange newWord \<lparr>line = line cursorPos, ch = ch cursorPos - n\<rparr> cursorPos,
      SetCursor \<lparr>line = line cursorPos + 1, ch = 0\<rparr>]"

definition switch_index :: "nat \<Rightarrow> string \<Rightarrow> pos \<Rightarrow> error + call list" where
  "switch_index index w cursorPos =
     (if index = 0 then
        (let amount = Number_of (char_at w (int (length w) - 1));
             newWord = backslash # ''begin{array}{''
         in case (if js_gt amount 0
                  then (case js_repeat ''c'' (js_sub amount 1) of
                          Inl e \<Rightarrow> Inl e
                        | Inr cs \<Rightarrow> Inr (newWord @ cs @ ''|c''))
                  else Inr newWord) of
              Inl e \<Rightarrow> Inl e
            | Inr newWord \<Rightarrow>
                Inr [ReplaceRange (newWord @ ''}'' @ backslash # ''end{array}'')
                       \<lparr>line = line cursorPos, ch = ch cursorPos - 4\<rparr> cursorPos,
                     SetCursor \<lparr>line = line cursorPos, ch = ch cursorPos - (11 + 5)\<rparr>])
      else if index = 1 then
        Inr [ReplaceRange
               (''M_{'' @ number_to_string (Number_of (char_at w (int (length w) - 3)))
                 @ '','' @ number_to_string (Number_of (char_at w (int (length w) - 1)))
                 @ ''} = '' @ backslash # ''pmatrix{}'')
               \<lparr>line = line cursorPos, ch = ch cursorPos - 4\<rparr> cursorPos]
      else if index = 2 then
        Inr [ReplaceRange (backslash # ''left('' @ backslash # ''right)'')
               \<lparr>line = line cursorPos, ch = ch cursorPos - 5\<rparr> cursorPos,
             SetCursor \<lparr>line = line cursorPos, ch = ch cursorPos - (7 + 5)\<rparr>]
      else if index = 3 then Inr (fence ''```\<newline>\<newline>```'' 5 cursorPos)
      else if index = 4 then Inr (fence ''```js\<newline>\<newline>```'' 7 cursorPos)
      else if index = 5 then Inr (fence ''```python\<newline>\<newline>```'' 7 cursorPos)
      else if index = 6 then Inr (fence ''```cpp\<newline>\<newline>```'' 8 cursorPos)
      else if index = 7 then Inr (fence ''```java\<newline>\<newline>```'' 9 cursorPos)
      else if index = 8 then Inr (fence ''```pseudocodice\<newline>\<newline>```'' 8 cursorPos)
      else if index = 9 then
        Inr [ReplaceRange (backslash # ''begin{cases}'' @ backslash # ''end{cases}'')
               \<lparr>line = line cursorPos, ch = ch cursorPos - 4\<rparr> cursorPos,
             SetCursor \<lparr>line = line cursorPos, ch = ch cursorPos - (10 + 5)\<rparr>]
      else if index = 10 then
        Inr [ReplaceRange (backslash # ''stackrel{}{}'')
               \<lparr>line = line cursorPos, ch = ch cursorPos - 5\<rparr> cursorPos,
             SetCursor \<lparr>line = line cursorPos, ch = ch cursorPos - (3 + 5)\<rparr>]
      else Inr [])"

text \<open>The \<open>forEach\<close> over the rule list: an expression is tested only when the token is
  not empty, every test updates the expression, and every rule whose test succeeds makes
  its calls. An exception ends the loop.\<close>

fun forEach :: "string \<Rightarrow> pos \<Rightarrow> nat \<Rightarrow> regexp list \<Rightarrow> error + (regexp list \<times> call list)" where
  "forEach w cursorPos index [] = Inr ([], [])"
| "forEach w cursorPos index (pattern # rest) =
     (if w \<noteq> [] then
        (case regex_test pattern w of
           (True, pattern') \<Rightarrow>
             (case switch_index index w cursorPos of
                Inl e \<Rightarrow> Inl e
              | Inr cs \<Rightarrow>
                  (case forEach w cursorPos (Suc index) rest of
                     Inl e \<Rightarrow> Inl e
                   | Inr (rest', cs') \<Rightarrow> Inr (pattern' # rest', cs @ cs')))
         | (False, pattern') \<Rightarrow>
             (case forEach w cursorPos (Suc index) rest of
                Inl e \<Rightarrow> Inl e
              | Inr (rest', cs') \<Rightarrow> Inr (pattern' # rest', cs')))
      else
        (case forEach w cursorPos (Suc index) rest of
           Inl e \<Rightarrow> Inl e
         | Inr (rest', cs') \<Rightarrow> Inr (pattern # rest', cs')))"

text \<open>The token before the cursor: the text of the cursor line up to the cursor, split
  at white space, last segment.\<close>

definition wordBeforeCursor :: "editor \<Rightarrow> string" where
  "wordBeforeCursor ed =
     last (js_split match_spaces
             (getRange \<lparr>line = line (getCursor ed), ch = 0\<rparr> (getCursor ed) ed))"

definition mathSimplifier :: "plugin \<Rightarrow> editor option \<Rightarrow> error + (plugin \<times> call list)" where
  "mathSimplifier p editor =
     (case editor of
        None \<Rightarrow> Inr (p, [])
      | Some ed \<Rightarrow>
          (case forEach (wordBeforeCursor ed) (getCursor ed) 0 (patterns p) of
             Inl e \<Rightarrow> Inl e
           | Inr (ps, cs) \<Rightarrow> Inr (p\<lparr>patterns := ps\<rparr>, cs)))"

text \<open>One run of the expander on an editor: the plugin afterwards and the editor after
  the host has carried out the calls.\<close>

definition expand :: "plugin \<Rightarrow> editor \<Rightarrow> error + (plugin \<times> editor)" where
  "expand p ed =
     (case mathSimplifier p (Some ed) of
        Inl e \<Rightarrow> Inl e
      | Inr (p', cs) \<Rightarrow> Inr (p', run_calls cs ed))"


section \<open>Notions the properties are stated with\<close>

text \<open>The count the specification describes: the number of segments of the split, less
  one when the final segment is empty.\<close>

definition segment_count :: "string \<Rightarrow> nat" where
  "segment_count T =
     (let segs = js_split match_newline_or_dollars T
      in length segs - (if last segs = [] then 1 else 0))"

text \<open>The calls of one rule, and the rules that fire on a token: those whose test
  succeeds on the expression as it stands, in the order of the list and numbered from
  \<open>i\<close>.\<close>

definition rule_calls :: "nat \<Rightarrow> string \<Rightarrow> pos \<Rightarrow> call list" where
  "rule_calls i w cp = (case switch_index i w cp of Inl e \<Rightarrow> [] | Inr cs \<Rightarrow> cs)"

fun fired :: "string \<Rightarrow> nat \<Rightarrow> regexp list \<Rightarrow> nat list" where
  "fired w i [] = []"
| "fired w i (r # rs) =
     (if w \<noteq> [] \<and> fst (regex_test r w) then i # fired w (Suc i) rs else fired w (Suc i) rs)"

definition tested :: "string \<Rightarrow> regexp \<Rightarrow> regexp" where
  "tested w r = (if w \<noteq> [] then snd (regex_test r w) else r)"

text \<open>A token matches a pattern when the pattern occurs somewhere in it.\<close>

definition matches :: "regexp \<Rightarrow> string \<Rightarrow> bool" where
  "matches r w = (search (ignoreCase r) (source r) w \<noteq> None)"

text \<open>The cursor of an editor lies inside its document.\<close>

definition valid_cursor :: "editor \<Rightarrow> bool" where
  "valid_cursor ed =
     (0 \<le> line (cursor ed) \<and> line (cursor ed) < int (length (doc ed))
      \<and> 0 \<le> ch (cursor ed) \<and> ch (cursor ed) \<le> int (length (doc ed ! nat (line (cursor ed)))))"

text \<open>The replacements among the calls; the number of characters a rule consumes
  before the cursor, which is the length of its pattern; the cursor as natural numbers;
  and the text of a document before and after a position.\<close>

definition replacements :: "call list \<Rightarrow> call list" where
  "replacements cs = filter (\<lambda>c. case c of ReplaceRange s a b \<Rightarrow> True | SetCursor a \<Rightarrow> False) cs"

definition literalLength :: "nat \<Rightarrow> nat" where
  "literalLength i = length (rule_sources ! i)"

definition cursor_line :: "editor \<Rightarrow> nat" where
  "cursor_line ed = nat (line (cursor ed))"

definition cursor_col :: "editor \<Rightarrow> nat" where
  "cursor_col ed = nat (ch (cursor ed))"

definition text_upto :: "string list \<Rightarrow> nat \<Rightarrow> nat \<Rightarrow> string" where
  "text_upto d l c = joinLines (take l d @ [take c (d ! l)])"

definition text_from :: "string list \<Rightarrow> nat \<Rightarrow> nat \<Rightarrow> string" where
  "text_from d l c = joinLines (drop c (d ! l) # drop (Suc l) d)"

text \<open>The rule list of a plugin is the list of the eleven expressions, each with the
  flags \<open>gi\<close>, whatever its \<open>lastIndex\<close>. The rules whose pattern occurs in a token.\<close>

definition rule_list :: "plugin \<Rightarrow> bool" where
  "rule_list p = (map (\<lambda>r. r\<lparr>lastIndex := 0\<rparr>) (patterns p) = map rx rule_sources)"

definition matching :: "string \<Rightarrow> nat list" where
  "matching w = filter (\<lambda>i. search True (rule_sources ! i) w \<noteq> None) [0..<11]"

text \<open>The plugin and the editor after one run, and the calls of the run.\<close>

definition plugin_after :: "plugin \<Rightarrow> editor \<Rightarrow> plugin" where
  "plugin_after p ed = (case expand p ed of Inl e \<Rightarrow> p | Inr (p', ed') \<Rightarrow> p')"

definition editor_after :: "plugin \<Rightarrow> editor \<Rightarrow> editor" where
  "editor_after p ed = (case expand p ed of Inl e \<Rightarrow> ed | Inr (p', ed') \<Rightarrow> ed')"

definition calls_of :: "plugin \<Rightarrow> editor \<Rightarrow> call list" where
  "calls_of p ed = (case mathSimplifier p (Some ed) of Inl e \<Rightarrow> [] | Inr (p', cs) \<Rightarrow> cs)"

text \<open>Editors the properties are tried on.\<close>

definition ed_hello :: editor where
  "ed_hello = \<lparr>doc = [''say hello''], cursor = \<lparr>line = 0, ch = 9\<rparr>\<rparr>"

definition ed_two :: editor where
  "ed_two = \<lparr>doc = [''arr3'' @ backslash # ''pars''], cursor = \<lparr>line = 0, ch = 9\<rparr>\<rparr>"

definition ed_py :: editor where
  "ed_py = \<lparr>doc = [''x'', ''ab '' @ backslash # ''prg:py tail'', ''z''],
            cursor = \<lparr>line = 1, ch = 10\<rparr>\<rparr>"



definition ed_defn :: editor where
  "ed_defn = \<lparr>doc = [''abc '' @ backslash # ''defn''], cursor = \<lparr>line = 0, ch = 9\<rparr>\<rparr>"

definition ed_first_arr3 :: editor where
  "ed_first_arr3 = \<lparr>doc = [''aaaaaaaaaaa arr3''], cursor = \<lparr>line = 0, ch = 16\<rparr>\<rparr>"

definition ed_py_pasted :: editor where
  "ed_py_pasted = \<lparr>doc = [''x'', ''ab ```python'', backslash # ''prg:py'', ''``` tail'', ''z''],
                    cursor = \<lparr>line = 2, ch = 7\<rparr>\<rparr>"

definition ed_only_arr3 :: editor where
  "ed_only_arr3 = \<lparr>doc = [''arr3''], cursor = \<lparr>line = 0, ch = 4\<rparr>\<rparr>"

section \<open>The line counter\<close>

lemma js_split_aux_nonempty: "js_split_aux m acc s \<noteq> []"
  by (induction m acc s rule: js_split_aux.induct) (auto split: option.splits nat.splits)

lemma js_split_nonempty: "js_split m s \<noteq> []"
  by (simp add: js_split_def js_split_aux_nonempty)

lemma updateLineCount_defined:
  assumes "T \<noteq> []"
  shows "updateLineCount (Some T) p
         = on_item (setText (''Lines: '' @ show_nat (segment_count T))) (on_item show_item p)"
proof -
  have "js_split match_newline_or_dollars T ! (length (js_split match_newline_or_dollars T) - 1)
        = last (js_split match_newline_or_dollars T)"
    using js_split_nonempty by (simp add: last_conv_nth)
  then show ?thesis
    using assms by (simp add: updateLineCount_def falsy_def segment_count_def Let_def)
qed

lemma segment_count_a_b: "segment_count ''a\<newline>b\<newline>'' = 2"
  by (simp add: segment_count_def js_split_def)

text \<open>
  C2, as stated, fails: on the empty text the guard \<open>!fileContent\<close> holds, so the loaded
  plugin does not show \<open>Lines: 1\<close>.
\<close>

theorem C2_empty_text_counterexample:
  "statusBarItem (updateLineCount (Some []) onload)
   \<noteq> Some \<lparr>visible = True, label = ''Lines: 1''\<rparr>"
  by (simp add: updateLineCount_def falsy_def on_item_def onload_def hide_def)

text \<open>
  C2, amended: for the empty document text the line counter hides the status display and
  sets no text, exactly as it does when there is no content at all.
\<close>

theorem C2_empty_text_hides:
  "updateLineCount (Some []) p = on_item hide p
   \<and> updateLineCount (Some []) p = updateLineCount None p"
  by (simp add: updateLineCount_def falsy_def)

theorem C2_empty_text_hides_witness:
  "statusBarItem (updateLineCount (Some []) onload) = Some \<lparr>visible = False, label = []\<rparr>"
  using C2_empty_text_hides [of onload] by (simp add: on_item_def onload_def hide_def)

text \<open>
  C3, as stated, fails at the empty text, which is a defined text: its split has one
  empty segment, so the claim promises the count 0 on a visible display, and the display
  is hidden with its text untouched.
\<close>

theorem C3_defined_text_counterexample:
  "statusBarItem (updateLineCount (Some []) onload)
   \<noteq> Some \<lparr>visible = True, label = ''Lines: '' @ show_nat (segment_count [])\<rparr>"
  by (simp add: updateLineCount_def falsy_def on_item_def onload_def hide_def)

text \<open>
  C3, amended: for every text that is not empty the display is shown with the number of
  segments of the split on "line feed or two dollar signs", less one exactly when the
  final segment is empty; without content, or with the empty text, the display is
  hidden; and the text \<open>a\nb\n\<close> displays 2.
\<close>

theorem C3_line_count:
  assumes "T \<noteq> []" and "statusBarItem p = Some b"
  shows "statusBarItem (updateLineCount (Some T) p)
           = Some \<lparr>visible = True, label = ''Lines: '' @ show_nat (segment_count T)\<rparr>
         \<and> statusBarItem (updateLineCount None p) = Some (b\<lparr>visible := False\<rparr>)
         \<and> statusBarItem (updateLineCount (Some []) p) = Some (b\<lparr>visible := False\<rparr>)
         \<and> statusBarItem (updateLineCount (Some ''a\<newline>b\<newline>'') p)
           = Some \<lparr>visible = True, label = ''Lines: 2''\<rparr>"
proof -
  have 1: "statusBarItem (updateLineCount (Some T) p)
           = Some \<lparr>visible = True, label = ''Lines: '' @ show_nat (segment_count T)\<rparr>"
    using assms
    by (simp add: updateLineCount_defined on_item_def setText_def show_item_def)
  have 2: "statusBarItem (updateLineCount None p) = Some (b\<lparr>visible := False\<rparr>)"
    using assms(2) by (simp add: updateLineCount_def falsy_def on_item_def hide_def)
  have "show_nat (segment_count ''a\<newline>b\<newline>'') = ''2''"
    by (simp only: segment_count_a_b) (simp add: digit_char_def)
  then have 3: "statusBarItem (updateLineCount (Some ''a\<newline>b\<newline>'') p)
           = Some \<lparr>visible = True, label = ''Lines: 2''\<rparr>"
    using assms(2)
    by (simp add: updateLineCount_defined on_item_def setText_def show_item_def
          del: show_nat.simps)
  have 4: "statusBarItem (updateLineCount (Some []) p) = Some (b\<lparr>visible := False\<rparr>)"
    using assms(2) by (simp add: updateLineCount_def falsy_def on_item_def hide_def)
  from 1 2 3 4 show ?thesis by simp
qed

theorem C3_line_count_witness:
  "statusBarItem (updateLineCount (Some ''x$$y\<newline>$z\<newline>'') onload)
     = Some \<lparr>visible = True, label = ''Lines: 3''\<rparr>
   \<and> statusBarItem (updateLineCount None onload) = Some \<lparr>visible = False, label = []\<rparr>"
proof -
  have t: "''x$$y\<newline>$z\<newline>'' \<noteq> []" by simp
  have s: "statusBarItem onload = Some \<lparr>visible = True, label = []\<rparr>"
    by (simp add: onload_def)
  have c: "segment_count ''x$$y\<newline>$z\<newline>'' = 3"
    by (simp add: segment_count_def js_split_def)
  have "show_nat (segment_count ''x$$y\<newline>$z\<newline>'') = ''3''"
    by (simp only: c) (simp add: digit_char_def)
  with C3_line_count [OF t s] show ?thesis by simp
qed

section \<open>The rule loop\<close>

lemma js_repeat_guarded: "js_gt a 0 \<Longrightarrow> \<exists>cs. js_repeat s (js_sub a 1) = Inr cs"
  by (cases a) (auto simp: js_gt_def js_sub_def js_repeat_def)

lemma switch_index_total: "switch_index i w cp = Inr (rule_calls i w cp)"
proof -
  have "\<exists>cs. switch_index i w cp = Inr cs"
  proof (cases "i = 0")
    case True
    show ?thesis
    proof (cases "js_gt (Number_of (char_at w (int (length w) - 1))) 0")
      case g: True
      from js_repeat_guarded [OF g, of "''c''"] obtain cs
        where "js_repeat ''c'' (js_sub (Number_of (char_at w (int (length w) - 1))) 1) = Inr cs" ..
      with True g show ?thesis by (simp add: switch_index_def Let_def)
    next
      case False
      with True show ?thesis by (simp add: switch_index_def Let_def)
    qed
  next
    case False
    then show ?thesis by (simp add: switch_index_def)
  qed
  then show ?thesis by (auto simp: rule_calls_def)
qed

lemma forEach_eq:
  "forEach w cp i rs
   = Inr (map (tested w) rs, concat (map (\<lambda>j. rule_calls j w cp) (fired w i rs)))"
proof (induction rs arbitrary: i)
  case Nil
  show ?case by simp
next
  case (Cons r rs)
  show ?case
  proof (cases "w = []")
    case True
    have "map (tested []) rs = rs" by (rule map_idI) (simp add: tested_def)
    with True Cons.IH [of "Suc i"] show ?thesis by (simp add: tested_def)
  next
    case False
    then show ?thesis
      by (cases "regex_test r w") (simp add: Cons.IH switch_index_total tested_def)
  qed
qed

lemma mathSimplifier_eq:
  "mathSimplifier p (Some ed)
   = Inr (p\<lparr>patterns := map (tested (wordBeforeCursor ed)) (patterns p)\<rparr>,
          concat (map (\<lambda>j. rule_calls j (wordBeforeCursor ed) (getCursor ed))
                   (fired (wordBeforeCursor ed) 0 (patterns p))))"
  by (simp add: mathSimplifier_def forEach_eq)

lemma fired_bounds: "j \<in> set (fired w i rs) \<Longrightarrow> i \<le> j \<and> j < i + length rs"
  by (induction rs arbitrary: i) (fastforce split: if_splits)+

lemma fired_sorted: "sorted_wrt (<) (fired w i rs)"
proof (induction rs arbitrary: i)
  case Nil
  show ?case by simp
next
  case (Cons r rs)
  have "\<forall>j \<in> set (fired w (Suc i) rs). i < j"
    by (auto dest!: fired_bounds)
  with Cons.IH [of "Suc i"] show ?case by simp
qed

section \<open>Expressions, the token and the host\<close>

lemma matches_here_length: "matches_here ic p s \<Longrightarrow> length p \<le> length s"
  by (induction ic p s rule: matches_here.induct) auto

lemma search_fits: "search ic p s = Some k \<Longrightarrow> k + length p \<le> length s"
proof (induction s arbitrary: k)
  case Nil
  then show ?case by (auto split: if_splits dest: matches_here_length)
next
  case (Cons c cs)
  then show ?case by (auto split: if_splits dest: matches_here_length)
qed

lemma search_drop_None: "search ic p s = None \<Longrightarrow> search ic p (drop i s) = None"
proof (induction s arbitrary: i)
  case Nil
  then show ?case by simp
next
  case (Cons c cs)
  then show ?case by (cases i) (auto split: if_splits)
qed

lemma regex_test_no_match: "\<not> matches r w \<Longrightarrow> \<not> fst (regex_test r w)"
  by (auto simp: matches_def regex_test_def Let_def search_drop_None split: option.splits)

lemma regex_test_fits: "fst (regex_test r w) \<Longrightarrow> length (source r) \<le> length w"
  by (auto simp: regex_test_def Let_def split: option.splits if_splits dest!: search_fits)

lemma failed_test_rests:
  "global r \<Longrightarrow> \<not> fst (regex_test r w) \<Longrightarrow> lastIndex (snd (regex_test r w)) = 0"
  by (auto simp: regex_test_def Let_def split: option.splits if_splits)

lemma regex_test_rest:
  "global r \<Longrightarrow> lastIndex r = 0 \<Longrightarrow> fst (regex_test r w) = matches r w"
  by (auto simp: regex_test_def matches_def split: option.splits)

lemma last_split_aux_suffix: "\<exists>pre. rev acc @ s = pre @ last (js_split_aux m acc s)"
proof (induction m acc s rule: js_split_aux.induct)
  case (1 m acc)
  show ?case by simp
next
  case (2 m acc c cs)
  show ?case
  proof (cases "m (c # cs)")
    case None
    from "2.IH"(1) [OF None] show ?thesis using None by simp
  next
    case (Some n)
    show ?thesis
    proof (cases n)
      case 0
      from "2.IH"(2) [OF Some 0] show ?thesis using Some 0 by simp
    next
      case (Suc k)
      from "2.IH"(3) [OF Some Suc] obtain pre
        where pre: "drop k cs = pre @ last (js_split_aux m [] (drop k cs))"
        by auto
      have "rev acc @ c # cs = (rev acc @ c # take k cs) @ drop k cs" by simp
      also have "\<dots> = (rev acc @ c # take k cs @ pre) @ last (js_split_aux m [] (drop k cs))"
        using pre by (metis append.assoc append_Cons)
      finally have "\<exists>q. rev acc @ c # cs = q @ last (js_split_aux m [] (drop k cs))"
        by blast
      then show ?thesis
        using Some Suc by (simp add: js_split_aux_nonempty)
    qed
  qed
qed

lemma last_split_suffix: "\<exists>pre. s = pre @ last (js_split m s)"
  using last_split_aux_suffix [of "[]" s m] by (simp add: js_split_def)

lemma getRange_to_cursor:
  assumes "valid_cursor ed"
  shows "getRange \<lparr>line = line (getCursor ed), ch = 0\<rparr> (getCursor ed) ed
         = take (nat (ch (cursor ed))) (doc ed ! nat (line (cursor ed)))"
proof -
  have l: "nat (line (cursor ed)) < length (doc ed)"
    using assms by (simp add: valid_cursor_def nat_less_iff)
  have c: "nat (ch (cursor ed)) \<le> length (doc ed ! nat (line (cursor ed)))"
    using assms by (simp add: valid_cursor_def nat_le_iff)
  from assms l c show ?thesis
    by (simp add: valid_cursor_def getRange_def getCursor_def clipPos_def lineAt_def Let_def)
qed

lemma word_suffix:
  assumes "valid_cursor ed"
  shows "\<exists>pre. take (nat (ch (cursor ed))) (doc ed ! nat (line (cursor ed)))
               = pre @ wordBeforeCursor ed"
  using last_split_suffix [of "take (nat (ch (cursor ed))) (doc ed ! nat (line (cursor ed)))" match_spaces]
  by (simp add: wordBeforeCursor_def getRange_to_cursor [OF assms])

lemma replaceRange_on_line:
  assumes "l < length d" and "c1 \<le> c2" and "c2 \<le> length (d ! l)" and "doc ed = d"
  shows "doc (replaceRange s \<lparr>line = int l, ch = int c1\<rparr> \<lparr>line = int l, ch = int c2\<rparr> ed)
         = take l d @ splice_lines (take c1 (d ! l)) (splitLines s) (drop c2 (d ! l)) @ drop (Suc l) d"
  using assms
  by (simp add: replaceRange_def clipPos_def lineAt_def Let_def before_def min_def)

section \<open>Lines, texts and the calls of a rule\<close>

lemma splitLines_nonempty: "splitLines s \<noteq> []"
  by (induction s) (auto split: list.splits)

lemma joinLines_Cons_append: "joinLines ((x @ y) # B) = x @ joinLines (y # B)"
  by (cases B) auto

lemma joinLines_mid: "joinLines (A @ (x @ y) # B) = joinLines (A @ [x]) @ joinLines (y # B)"
proof (induction A rule: joinLines.induct)
  case 1
  show ?case by (simp add: joinLines_Cons_append)
next
  case (2 a)
  show ?case by (cases B) auto
next
  case (3 a b as)
  then show ?case by simp
qed

lemma joinLines_splitLines: "joinLines (splitLines s) = s"
proof (induction s)
  case Nil
  show ?case by simp
next
  case (Cons c cs)
  obtain l ls where ls: "splitLines cs = l # ls"
    using splitLines_nonempty [of cs] by (cases "splitLines cs") auto
  with Cons show ?case
    by (cases ls) auto
qed

lemma joinLines_splice:
  assumes "ns \<noteq> []"
  shows "joinLines (A @ splice_lines pre ns post @ B)
         = joinLines (A @ [pre]) @ joinLines ns @ joinLines (post # B)"
proof (cases ns rule: rev_cases)
  case Nil
  with assms show ?thesis by simp
next
  case (snoc ms z)
  show ?thesis
  proof (cases ms)
    case Nil
    have "joinLines (A @ (pre @ z @ post) # B) = joinLines (A @ [pre]) @ z @ joinLines (post # B)"
      by (simp only: joinLines_mid joinLines_Cons_append)
    with snoc Nil show ?thesis by (simp add: splice_lines_def)
  next
    case (Cons m ms')
    have s: "splice_lines pre ns post = (pre @ m) # ms' @ [z @ post]"
      using snoc Cons by (simp add: splice_lines_def butlast_append)
    have "joinLines (A @ ((pre @ m) # ms') @ (z @ post) # B)
          = joinLines (A @ [pre]) @ joinLines (m # ms' @ (z @ post) # B)"
      using joinLines_mid [of A pre m "ms' @ (z @ post) # B"] by simp
    also have "joinLines (m # ms' @ (z @ post) # B) = joinLines ((m # ms') @ [z]) @ joinLines (post # B)"
      using joinLines_mid [of "m # ms'" z post B] by simp
    finally show ?thesis using s snoc Cons by simp
  qed
qed

lemma index_cases:
  "i < 11 \<Longrightarrow> i = 0 \<or> i = 1 \<or> i = 2 \<or> i = 3 \<or> i = 4 \<or> i = 5 \<or> i = 6 \<or> i = 7
     \<or> i = 8 \<or> i = 9 \<or> i = (10::nat)"
  by arith

lemma literalLength_values:
  "literalLength 0 = 4" "literalLength 1 = 4" "literalLength 2 = 5" "literalLength 3 = 5"
  "literalLength 4 = 7" "literalLength 5 = 7" "literalLength 6 = 8" "literalLength 7 = 9"
  "literalLength 8 = 8" "literalLength 9 = 4" "literalLength 10 = 5"
  "literalLength (Suc 0) = 4"
  by (simp_all add: literalLength_def rule_sources_def)

lemma rule_calls_0:
  "\<exists>new. rule_calls 0 w cp
     = [ReplaceRange new \<lparr>line = line cp, ch = ch cp - 4\<rparr> cp,
        SetCursor \<lparr>line = line cp, ch = ch cp - 16\<rparr>]"
proof (cases "js_gt (Number_of (char_at w (int (length w) - 1))) 0")
  case g: True
  from js_repeat_guarded [OF g, of "''c''"] obtain cs
    where "js_repeat ''c'' (js_sub (Number_of (char_at w (int (length w) - 1))) 1) = Inr cs" ..
  with g show ?thesis by (simp add: rule_calls_def switch_index_def Let_def)
next
  case False
  then show ?thesis by (simp add: rule_calls_def switch_index_def Let_def)
qed

lemma rule_calls_shape:
  assumes "i < 11"
  shows "\<exists>new rest. rule_calls i w cp
           = ReplaceRange new \<lparr>line = line cp, ch = ch cp - int (literalLength i)\<rparr> cp # rest
         \<and> replacements rest = []"
proof -
  from index_cases [OF assms] show ?thesis
  proof (elim disjE)
    assume i: "i = 0"
    from rule_calls_0 [of w cp] show ?thesis
      unfolding i by (auto simp: literalLength_values replacements_def)
  qed (simp_all add: rule_calls_def switch_index_def fence_def literalLength_values
         replacements_def)
qed

lemma run_calls_Cons: "run_calls (c # cs) ed = run_calls cs (run_call c ed)"
  by (simp add: run_calls_def)

lemma run_calls_no_replacement: "replacements cs = [] \<Longrightarrow> doc (run_calls cs ed) = doc ed"
proof (induction cs arbitrary: ed)
  case Nil
  show ?case by (simp add: run_calls_def)
next
  case (Cons c cs)
  then show ?case
    by (cases c) (simp_all add: run_calls_Cons replacements_def setCursor_def)
qed

lemma fired_index: "j \<in> set (fired w i rs) \<Longrightarrow> i \<le> j \<and> j < i + length rs \<and> fst (regex_test (rs ! (j - i)) w)"
proof (induction rs arbitrary: i)
  case Nil
  then show ?case by simp
next
  case (Cons r rs)
  show ?case
  proof (cases "j = i")
    case True
    with Cons.prems show ?thesis
      by (auto split: if_splits dest!: fired_bounds)
  next
    case False
    with Cons.prems have "j \<in> set (fired w (Suc i) rs)" by (auto split: if_splits)
    from Cons.IH [OF this] show ?thesis by (auto simp: Suc_diff_le)
  qed
qed

section \<open>The expander\<close>

subsection \<open>Rule lists and the rules that fire\<close>

lemma length_rule_sources: "length rule_sources = 11"
  by (simp add: rule_sources_def)

lemma rule_list_length: "rule_list p \<Longrightarrow> length (patterns p) = 11"
  unfolding rule_list_def using length_rule_sources by (metis length_map)

lemma rule_list_nth:
  assumes "rule_list p" and "i < 11"
  shows "source (patterns p ! i) = rule_sources ! i"
    and "ignoreCase (patterns p ! i)" and "global (patterns p ! i)"
proof -
  have "map (\<lambda>r. r\<lparr>lastIndex := 0\<rparr>) (patterns p) ! i = map rx rule_sources ! i"
    using assms(1) by (simp add: rule_list_def)
  then have e: "(patterns p ! i)\<lparr>lastIndex := 0\<rparr> = rx (rule_sources ! i)"
    using assms rule_list_length [OF assms(1)] length_rule_sources by simp
  have "source ((patterns p ! i)\<lparr>lastIndex := 0\<rparr>) = rule_sources ! i"
    by (simp only: e) (simp add: rx_def)
  then show "source (patterns p ! i) = rule_sources ! i" by simp
  have "ignoreCase ((patterns p ! i)\<lparr>lastIndex := 0\<rparr>)"
    by (simp only: e) (simp add: rx_def)
  then show "ignoreCase (patterns p ! i)" by simp
  have "global ((patterns p ! i)\<lparr>lastIndex := 0\<rparr>)"
    by (simp only: e) (simp add: rx_def)
  then show "global (patterns p ! i)" by simp
qed

lemma rule_list_onload: "rule_list onload"
  by (simp add: rule_list_def onload_def rx_def)

lemma fired_complete:
  "j < length rs \<Longrightarrow> w \<noteq> [] \<Longrightarrow> fst (regex_test (rs ! j) w) \<Longrightarrow> i + j \<in> set (fired w i rs)"
proof (induction rs arbitrary: i j)
  case Nil
  then show ?case by simp
next
  case (Cons r rs)
  show ?case
  proof (cases j)
    case 0
    with Cons.prems show ?thesis by simp
  next
    case (Suc j')
    with Cons.prems have "Suc i + j' \<in> set (fired w (Suc i) rs)"
      by (intro Cons.IH) auto
    with Suc show ?thesis by simp
  qed
qed

lemma fired_empty_word: "fired [] i rs = []"
  by (induction rs arbitrary: i) auto

lemma fired_set:
  "set (fired w 0 rs) = {j. j < length rs \<and> w \<noteq> [] \<and> fst (regex_test (rs ! j) w)}"
proof (intro set_eqI iffI)
  fix j assume j: "j \<in> set (fired w 0 rs)"
  then have "w \<noteq> []" using fired_empty_word by (cases "w = []") auto
  with fired_index [OF j] show "j \<in> {j. j < length rs \<and> w \<noteq> [] \<and> fst (regex_test (rs ! j) w)}"
    by simp
next
  fix j assume "j \<in> {j. j < length rs \<and> w \<noteq> [] \<and> fst (regex_test (rs ! j) w)}"
  then show "j \<in> set (fired w 0 rs)"
    using fired_complete [of j rs w 0] by simp
qed

lemma matching_empty: "matching [] = []"
  by code_simp

lemma fired_at_rest:
  assumes "rule_list p" and "\<forall>i \<in> set (matching w). lastIndex (patterns p ! i) = 0"
  shows "fired w 0 (patterns p) = matching w"
proof (cases "w = []")
  case True
  then show ?thesis by (simp add: fired_empty_word matching_empty)
next
  case False
  have "set (fired w 0 (patterns p)) = set (matching w)"
  proof (intro set_eqI iffI)
    fix j assume "j \<in> set (fired w 0 (patterns p))"
    then have j: "j < 11" "fst (regex_test (patterns p ! j) w)"
      using rule_list_length [OF assms(1)] by (auto simp: fired_set)
    from j(2) have "matches (patterns p ! j) w"
      using regex_test_no_match by blast
    then show "j \<in> set (matching w)"
      using j(1) rule_list_nth [OF assms(1) j(1)] by (simp add: matching_def matches_def)
  next
    fix j assume m: "j \<in> set (matching w)"
    then have j: "j < 11" by (simp add: matching_def)
    from m have "matches (patterns p ! j) w"
      using rule_list_nth [OF assms(1) j] by (simp add: matching_def matches_def)
    moreover have "lastIndex (patterns p ! j) = 0" using assms(2) m by blast
    ultimately have "fst (regex_test (patterns p ! j) w)"
      using regex_test_rest [OF rule_list_nth(3) [OF assms(1) j]] by simp
    then show "j \<in> set (fired w 0 (patterns p))"
      using j False rule_list_length [OF assms(1)] by (simp add: fired_set)
  qed
  moreover have "sorted_wrt (<) (matching w)"
    by (simp add: matching_def sorted_wrt_filter)
  ultimately show ?thesis
    using fired_sorted [of w 0 "patterns p"]
    by (metis strict_sorted_equal)
qed

lemma fired_none:
  assumes "w = [] \<or> (\<forall>r \<in> set rs. \<not> matches r w)"
  shows "fired w i rs = []"
proof (cases "w = []")
  case True
  then show ?thesis by (simp add: fired_empty_word)
next
  case False
  with assms have "\<forall>r \<in> set rs. \<not> fst (regex_test r w)"
    using regex_test_no_match by blast
  then show ?thesis by (induction rs arbitrary: i) auto
qed

lemma word_of_empty_text:
  "getRange \<lparr>line = line (getCursor ed), ch = 0\<rparr> (getCursor ed) ed = []
   \<Longrightarrow> wordBeforeCursor ed = []"
  by (simp add: wordBeforeCursor_def js_split_def)


subsection \<open>No match, and several matches\<close>

text \<open>
  C6: the expansion step is a silent no-op on input that matches nothing. When the text
  from the start of the cursor line to the cursor is empty, or when no pattern of the
  rule list occurs in the token before the cursor, the expander makes no call on the
  editor: the document and the cursor are the ones it was given. This holds whatever
  the \<open>lastIndex\<close> of the expressions.
\<close>

theorem C6_no_match_is_no_op:
  assumes "getRange \<lparr>line = line (getCursor ed), ch = 0\<rparr> (getCursor ed) ed = []
           \<or> (\<forall>r \<in> set (patterns p). \<not> matches r (wordBeforeCursor ed))"
  shows "\<exists>p'. mathSimplifier p (Some ed) = Inr (p', []) \<and> expand p ed = Inr (p', ed)"
proof -
  have "fired (wordBeforeCursor ed) 0 (patterns p) = []"
    using assms word_of_empty_text [of ed] by (intro fired_none) blast
  then show ?thesis
    by (simp add: expand_def mathSimplifier_eq run_calls_def)
qed

theorem C6_no_match_is_no_op_witness:
  "\<exists>p'. mathSimplifier onload (Some ed_hello) = Inr (p', [])
        \<and> expand onload ed_hello = Inr (p', ed_hello)"
proof -
  have w: "wordBeforeCursor ed_hello = ''hello''" by code_simp
  have "\<forall>r \<in> set (patterns onload). \<not> matches r ''hello''" by code_simp
  then have "getRange \<lparr>line = line (getCursor ed_hello), ch = 0\<rparr> (getCursor ed_hello) ed_hello = []
           \<or> (\<forall>r \<in> set (patterns onload). \<not> matches r (wordBeforeCursor ed_hello))"
    by (simp only: w) simp
  from C6_no_match_is_no_op [OF this] show ?thesis .
qed

text \<open>
  Rule matching does not short-circuit. The calls of one run are the calls of every
  rule whose test succeeds on the token, rule after rule in the order of the list; each
  such rule makes exactly one replacement, on the span of its consumed length that ends
  at the cursor position read before the loop. When the expressions of the matching
  rules are at rest (\<open>lastIndex\<close> 0), the rules whose test succeeds are the rules whose
  pattern occurs in the token.
\<close>

lemma no_short_circuit:
  assumes "rule_list p"
  shows "\<exists>p'. mathSimplifier p (Some ed)
            = Inr (p', concat (map (\<lambda>i. rule_calls i (wordBeforeCursor ed) (getCursor ed))
                                (fired (wordBeforeCursor ed) 0 (patterns p))))
         \<and> sorted_wrt (<) (fired (wordBeforeCursor ed) 0 (patterns p))
         \<and> set (fired (wordBeforeCursor ed) 0 (patterns p))
           = {i. i < 11 \<and> wordBeforeCursor ed \<noteq> []
                 \<and> fst (regex_test (patterns p ! i) (wordBeforeCursor ed))}
         \<and> (\<forall>i \<in> set (fired (wordBeforeCursor ed) 0 (patterns p)).
              \<exists>new. replacements (rule_calls i (wordBeforeCursor ed) (getCursor ed))
                = [ReplaceRange new
                     \<lparr>line = line (getCursor ed),
                      ch = ch (getCursor ed) - int (literalLength i)\<rparr>
                     (getCursor ed)])
         \<and> ((\<forall>i \<in> set (matching (wordBeforeCursor ed)). lastIndex (patterns p ! i) = 0)
              \<longrightarrow> fired (wordBeforeCursor ed) 0 (patterns p) = matching (wordBeforeCursor ed))"
proof -
  let ?w = "wordBeforeCursor ed" and ?cp = "getCursor ed"
  have len: "length (patterns p) = 11" by (rule rule_list_length [OF assms])
  have shape: "\<exists>new. replacements (rule_calls i ?w ?cp)
          = [ReplaceRange new \<lparr>line = line ?cp, ch = ch ?cp - int (literalLength i)\<rparr> ?cp]"
    if "i \<in> set (fired ?w 0 (patterns p))" for i
  proof -
    from that have "i < 11" using len by (simp add: fired_set)
    from rule_calls_shape [OF this, of ?w ?cp] show ?thesis
      by (auto simp: replacements_def)
  qed
  show ?thesis
    using shape fired_sorted [of ?w 0 "patterns p"] fired_at_rest [OF assms, of ?w]
    by (simp add: mathSimplifier_eq fired_set len)
qed

lemma no_short_circuit_example:
  "\<exists>p'. mathSimplifier onload (Some ed_two)
     = Inr (p', [ReplaceRange (backslash # ''begin{array}{}'' @ backslash # ''end{array}'')
                   \<lparr>line = 0, ch = 5\<rparr> \<lparr>line = 0, ch = 9\<rparr>,
                 SetCursor \<lparr>line = 0, ch = - 7\<rparr>,
                 ReplaceRange (backslash # ''left('' @ backslash # ''right)'')
                   \<lparr>line = 0, ch = 4\<rparr> \<lparr>line = 0, ch = 9\<rparr>,
                 SetCursor \<lparr>line = 0, ch = - 3\<rparr>])"
proof -
  have f: "fired (wordBeforeCursor ed_two) 0 (patterns onload) = [0, 2]" by code_simp
  have c: "concat (map (\<lambda>i. rule_calls i (wordBeforeCursor ed_two) (getCursor ed_two)) [0, 2])
        = [ReplaceRange (backslash # ''begin{array}{}'' @ backslash # ''end{array}'')
                   \<lparr>line = 0, ch = 5\<rparr> \<lparr>line = 0, ch = 9\<rparr>,
                 SetCursor \<lparr>line = 0, ch = - 7\<rparr>,
                 ReplaceRange (backslash # ''left('' @ backslash # ''right)'')
                   \<lparr>line = 0, ch = 4\<rparr> \<lparr>line = 0, ch = 9\<rparr>,
                 SetCursor \<lparr>line = 0, ch = - 3\<rparr>]"
    by code_simp
  from no_short_circuit [OF rule_list_onload, of ed_two] show ?thesis
    by (simp only: f c) blast
qed

subsection \<open>The frame of one expansion\<close>

lemma doc_after_rule:
  assumes vc: "valid_cursor ed" and i: "i < 11" and k: "literalLength i \<le> cursor_col ed"
  shows "\<exists>new. doc (run_calls (rule_calls i w (getCursor ed)) ed)
           = take (cursor_line ed) (doc ed)
             @ splice_lines (take (cursor_col ed - literalLength i) (doc ed ! cursor_line ed))
                 (splitLines new) (drop (cursor_col ed) (doc ed ! cursor_line ed))
             @ drop (Suc (cursor_line ed)) (doc ed)"
proof -
  let ?l = "cursor_line ed" and ?c = "cursor_col ed" and ?k = "literalLength i"
  have l: "?l < length (doc ed)" "line (cursor ed) = int ?l"
    using vc by (simp_all add: valid_cursor_def cursor_line_def nat_less_iff)
  have c: "?c \<le> length (doc ed ! ?l)" "ch (cursor ed) = int ?c"
    using vc by (simp_all add: valid_cursor_def cursor_line_def cursor_col_def nat_le_iff)
  from rule_calls_shape [OF i, of w "getCursor ed"] obtain new rest
    where calls: "rule_calls i w (getCursor ed)
             = ReplaceRange new \<lparr>line = line (getCursor ed),
                                    ch = ch (getCursor ed) - int ?k\<rparr> (getCursor ed) # rest"
      and rest: "replacements rest = []"
    by blast
  have from_pos: "\<lparr>line = line (getCursor ed), ch = ch (getCursor ed) - int ?k\<rparr>
        = \<lparr>line = int ?l, ch = int (?c - ?k)\<rparr>"
    using l c k by (simp add: getCursor_def)
  have to_pos: "getCursor ed = \<lparr>line = int ?l, ch = int ?c\<rparr>"
    using l c by (simp add: getCursor_def)
  have "doc (run_calls (rule_calls i w (getCursor ed)) ed)
        = doc (replaceRange new \<lparr>line = int ?l, ch = int (?c - ?k)\<rparr>
                 \<lparr>line = int ?l, ch = int ?c\<rparr> ed)"
    unfolding calls from_pos
    by (simp add: run_calls_Cons run_calls_no_replacement [OF rest] to_pos [symmetric])
  also have "\<dots> = take ?l (doc ed)
             @ splice_lines (take (?c - ?k) (doc ed ! ?l)) (splitLines new) (drop ?c (doc ed ! ?l))
             @ drop (Suc ?l) (doc ed)"
    using l(1) c(1) by (intro replaceRange_on_line) simp_all
  finally show ?thesis by blast
qed

lemma fired_rule_fits:
  assumes vc: "valid_cursor ed" and rl: "rule_list p"
    and i: "i \<in> set (fired (wordBeforeCursor ed) 0 (patterns p))"
  shows "i < 11 \<and> literalLength i \<le> cursor_col ed
         \<and> literalLength i \<le> length (wordBeforeCursor ed)"
proof -
  let ?w = "wordBeforeCursor ed"
  from i have i11: "i < 11" and t: "fst (regex_test (patterns p ! i) ?w)"
    using rule_list_length [OF rl] by (simp_all add: fired_set)
  have "length (source (patterns p ! i)) \<le> length ?w"
    by (rule regex_test_fits [OF t])
  then have kw: "literalLength i \<le> length ?w"
    using rule_list_nth(1) [OF rl i11] by (simp add: literalLength_def)
  from word_suffix [OF vc] obtain pre
    where "take (nat (ch (cursor ed))) (doc ed ! nat (line (cursor ed))) = pre @ ?w" ..
  then have "length (pre @ ?w) \<le> nat (ch (cursor ed))"
    by (metis length_take min.cobounded2)
  then have "length ?w \<le> cursor_col ed" by (simp add: cursor_col_def)
  with kw i11 show ?thesis by simp
qed

lemma splice_lines_above: "take (length A) (A @ splice_lines pre ns post @ B) = A"
  by simp

lemma splice_lines_first:
  assumes "ns \<noteq> []"
  shows "take (length pre) (hd (splice_lines pre ns post)) = pre"
proof (cases ns)
  case Nil
  with assms show ?thesis by simp
next
  case (Cons n ms)
  then show ?thesis by (cases ms) (simp_all add: splice_lines_def)
qed

lemma splice_lines_nonempty: "splice_lines pre ns post \<noteq> []"
  by (simp add: splice_lines_def Let_def)

lemma text_around_span:
  assumes "l < length d" and "k \<le> c" and "c \<le> length (d ! l)"
  shows "joinLines d = text_upto d l (c - k) @ take k (drop (c - k) (d ! l)) @ text_from d l c"
proof -
  have line: "d ! l = take (c - k) (d ! l) @ take k (drop (c - k) (d ! l)) @ drop c (d ! l)"
    using assms(2,3)
    by (metis add_diff_cancel_left' append_take_drop_id drop_drop le_add_diff_inverse2
          add.commute)
  have "d = take l d @ (d ! l) # drop (Suc l) d"
    using assms(1) by (simp add: id_take_nth_drop)
  then have "joinLines d = joinLines (take l d
       @ (take (c - k) (d ! l) @ take k (drop (c - k) (d ! l)) @ drop c (d ! l)) # drop (Suc l) d)"
    using line by simp
  also have "\<dots> = joinLines (take l d @ [take (c - k) (d ! l)])
       @ joinLines ((take k (drop (c - k) (d ! l)) @ drop c (d ! l)) # drop (Suc l) d)"
    by (rule joinLines_mid)
  finally show ?thesis
    by (simp add: text_upto_def text_from_def joinLines_Cons_append)
qed

lemma frame_of_fired_rule:
  assumes "valid_cursor ed" and "rule_list p"
    and "fired (wordBeforeCursor ed) 0 (patterns p) = [i]"
  shows "\<exists>p' ed' new.
           expand p ed = Inr (p', ed')
         \<and> literalLength i \<le> cursor_col ed
         \<and> take (cursor_line ed) (doc ed') = take (cursor_line ed) (doc ed)
         \<and> take (cursor_col ed - literalLength i) (doc ed' ! cursor_line ed)
           = take (cursor_col ed - literalLength i) (doc ed ! cursor_line ed)
         \<and> getValue ed
           = text_upto (doc ed) (cursor_line ed) (cursor_col ed - literalLength i)
             @ take (literalLength i) (drop (cursor_col ed - literalLength i) (doc ed ! cursor_line ed))
             @ text_from (doc ed) (cursor_line ed) (cursor_col ed)
         \<and> getValue ed'
           = text_upto (doc ed) (cursor_line ed) (cursor_col ed - literalLength i)
             @ new
             @ text_from (doc ed) (cursor_line ed) (cursor_col ed)"
proof -
  let ?l = "cursor_line ed" and ?c = "cursor_col ed" and ?k = "literalLength i"
  let ?w = "wordBeforeCursor ed"
  let ?pre = "take (?c - ?k) (doc ed ! ?l)" and ?post = "drop ?c (doc ed ! ?l)"
  have l: "?l < length (doc ed)"
    using assms(1) by (simp add: valid_cursor_def cursor_line_def nat_less_iff)
  have c: "?c \<le> length (doc ed ! ?l)"
    using assms(1) by (simp add: valid_cursor_def cursor_line_def cursor_col_def nat_le_iff)
  have "i \<in> set (fired ?w 0 (patterns p))" using assms(3) by simp
  from fired_rule_fits [OF assms(1,2) this] have i: "i < 11" and k: "?k \<le> ?c" by simp_all
  from doc_after_rule [OF assms(1) i k, of ?w] obtain new
    where d': "doc (run_calls (rule_calls i ?w (getCursor ed)) ed)
             = take ?l (doc ed) @ splice_lines ?pre (splitLines new) ?post @ drop (Suc ?l) (doc ed)"
    by blast
  let ?ed' = "run_calls (rule_calls i ?w (getCursor ed)) ed"
  have e: "expand p ed = Inr (p\<lparr>patterns := map (tested ?w) (patterns p)\<rparr>, ?ed')"
    using assms(3) by (simp add: expand_def mathSimplifier_eq)
  have lenl: "length (take ?l (doc ed)) = ?l" using l by simp
  have above: "take ?l (doc ?ed') = take ?l (doc ed)"
    unfolding d' using splice_lines_above [of "take ?l (doc ed)"] lenl by simp
  have "doc ?ed' ! ?l = hd (splice_lines ?pre (splitLines new) ?post)"
    unfolding d' using lenl splice_lines_nonempty [of ?pre "splitLines new" ?post]
    by (simp add: nth_append hd_conv_nth)
  moreover have "length ?pre = ?c - ?k" using c by simp
  ultimately have prefix: "take (?c - ?k) (doc ?ed' ! ?l) = ?pre"
    using splice_lines_first [OF splitLines_nonempty, of ?pre new ?post] by simp
  have before: "getValue ed = text_upto (doc ed) ?l (?c - ?k)
        @ take ?k (drop (?c - ?k) (doc ed ! ?l)) @ text_from (doc ed) ?l ?c"
    unfolding getValue_def by (rule text_around_span [OF l k c])
  have after: "getValue ?ed' = text_upto (doc ed) ?l (?c - ?k) @ new @ text_from (doc ed) ?l ?c"
    unfolding getValue_def d'
    by (simp add: joinLines_splice [OF splitLines_nonempty] joinLines_splitLines
          text_upto_def text_from_def)
  from e k above prefix before after show ?thesis by blast
qed


lemma fired_subset_matching:
  assumes "rule_list p"
  shows "set (fired w 0 (patterns p)) \<subseteq> set (matching w)"
proof
  fix j assume "j \<in> set (fired w 0 (patterns p))"
  then have j: "j < 11" "fst (regex_test (patterns p ! j) w)"
    using rule_list_length [OF assms] by (auto simp: fired_set)
  from j(2) have "matches (patterns p ! j) w"
    using regex_test_no_match by blast
  then show "j \<in> set (matching w)"
    using j(1) rule_list_nth [OF assms j(1)] by (simp add: matching_def matches_def)
qed

lemma at_most_one: "distinct xs \<Longrightarrow> set xs \<subseteq> {i} \<Longrightarrow> xs = [] \<or> xs = [i]"
  by (cases xs) (auto simp: subset_singleton_iff)

lemma matching_rule_fits:
  assumes vc: "valid_cursor ed" and i: "i \<in> set (matching (wordBeforeCursor ed))"
  shows "literalLength i \<le> cursor_col ed"
proof -
  let ?w = "wordBeforeCursor ed"
  from i obtain k where "search True (rule_sources ! i) ?w = Some k"
    by (auto simp: matching_def)
  from search_fits [OF this] have kw: "literalLength i \<le> length ?w"
    by (simp add: literalLength_def)
  from word_suffix [OF vc] obtain pre
    where "take (nat (ch (cursor ed))) (doc ed ! nat (line (cursor ed))) = pre @ ?w" ..
  then have "length (pre @ ?w) \<le> nat (ch (cursor ed))"
    by (metis length_take min.cobounded2)
  then have "length ?w \<le> cursor_col ed" by (simp add: cursor_col_def)
  with kw show ?thesis by simp
qed

text \<open>
  C10: the frame of a single expansion. When the cursor lies in the document and exactly
  one rule fires on the token before it, or exactly one pattern of the rule list occurs
  in that token, the consumed length of the rule fits before the cursor, the lines above
  the cursor line are unchanged, the cursor line is unchanged before the consumed span,
  and the text of the document afterwards is the text before the span, then some text in
  place of the span, then the text that followed the cursor.
\<close>

theorem C10_frame:
  assumes "valid_cursor ed" and "rule_list p"
    and "fired (wordBeforeCursor ed) 0 (patterns p) = [i] \<or> matching (wordBeforeCursor ed) = [i]"
  shows "\<exists>p' ed' new.
           expand p ed = Inr (p', ed')
         \<and> literalLength i \<le> cursor_col ed
         \<and> take (cursor_line ed) (doc ed') = take (cursor_line ed) (doc ed)
         \<and> take (cursor_col ed - literalLength i) (doc ed' ! cursor_line ed)
           = take (cursor_col ed - literalLength i) (doc ed ! cursor_line ed)
         \<and> getValue ed
           = text_upto (doc ed) (cursor_line ed) (cursor_col ed - literalLength i)
             @ take (literalLength i) (drop (cursor_col ed - literalLength i) (doc ed ! cursor_line ed))
             @ text_from (doc ed) (cursor_line ed) (cursor_col ed)
         \<and> getValue ed'
           = text_upto (doc ed) (cursor_line ed) (cursor_col ed - literalLength i)
             @ new
             @ text_from (doc ed) (cursor_line ed) (cursor_col ed)"
proof (cases "fired (wordBeforeCursor ed) 0 (patterns p) = [i]")
  case True
  from frame_of_fired_rule [OF assms(1,2) True] show ?thesis .
next
  case False
  let ?l = "cursor_line ed" and ?c = "cursor_col ed" and ?k = "literalLength i"
  let ?w = "wordBeforeCursor ed"
  from False assms(3) have m: "matching ?w = [i]" by blast
  have d: "distinct (fired ?w 0 (patterns p))"
    using fired_sorted [of ?w 0 "patterns p"] by (simp add: strict_sorted_iff)
  have s: "set (fired ?w 0 (patterns p)) \<subseteq> {i}"
    using fired_subset_matching [OF assms(2), of ?w] m by simp
  have none: "fired ?w 0 (patterns p) = []"
    using at_most_one [OF d s] False by simp
  have l: "?l < length (doc ed)"
    using assms(1) by (simp add: valid_cursor_def cursor_line_def nat_less_iff)
  have c: "?c \<le> length (doc ed ! ?l)"
    using assms(1) by (simp add: valid_cursor_def cursor_line_def cursor_col_def nat_le_iff)
  have k: "?k \<le> ?c"
    using matching_rule_fits [OF assms(1), of i] m by simp
  have e: "expand p ed = Inr (p\<lparr>patterns := map (tested ?w) (patterns p)\<rparr>, ed)"
    using none by (simp add: expand_def mathSimplifier_eq run_calls_def)
  have v: "getValue ed = text_upto (doc ed) ?l (?c - ?k)
        @ take ?k (drop (?c - ?k) (doc ed ! ?l)) @ text_from (doc ed) ?l ?c"
    unfolding getValue_def by (rule text_around_span [OF l k c])
  have "expand p ed = Inr (p\<lparr>patterns := map (tested ?w) (patterns p)\<rparr>, ed)
         \<and> ?k \<le> ?c
         \<and> take ?l (doc ed) = take ?l (doc ed)
         \<and> take (?c - ?k) (doc ed ! ?l) = take (?c - ?k) (doc ed ! ?l)
         \<and> getValue ed = text_upto (doc ed) ?l (?c - ?k)
             @ take ?k (drop (?c - ?k) (doc ed ! ?l)) @ text_from (doc ed) ?l ?c
         \<and> getValue ed = text_upto (doc ed) ?l (?c - ?k)
             @ take ?k (drop (?c - ?k) (doc ed ! ?l)) @ text_from (doc ed) ?l ?c"
    using e k v by simp
  then show ?thesis by (intro exI)
qed

theorem C10_frame_witness:
  "\<exists>p' ed' new.
      expand onload ed_py = Inr (p', ed')
    \<and> take 1 (doc ed') = [''x'']
    \<and> take 3 (doc ed' ! 1) = ''ab ''
    \<and> getValue ed_py = ''x\<newline>ab '' @ (backslash # ''prg:py'') @ '' tail\<newline>z''
    \<and> getValue ed' = ''x\<newline>ab '' @ new @ '' tail\<newline>z''"
proof -
  have vc: "valid_cursor ed_py" by code_simp
  have f: "fired (wordBeforeCursor ed_py) 0 (patterns onload) = [5]" by code_simp
  have e: "cursor_line ed_py = 1" "cursor_col ed_py - literalLength 5 = 3"
      "take 1 (doc ed_py) = [''x'']" "take 3 (doc ed_py ! 1) = ''ab ''"
      "text_upto (doc ed_py) 1 3 = ''x\<newline>ab ''"
      "text_from (doc ed_py) 1 (cursor_col ed_py) = '' tail\<newline>z''"
      "take (literalLength 5) (drop 3 (doc ed_py ! 1)) = backslash # ''prg:py''"
    by code_simp+
  from C10_frame [OF vc rule_list_onload disjI1 [OF f]] show ?thesis
    by (simp only: e) blast
qed

subsection \<open>Single tokens\<close>

lemma consumed_is_word_end:
  assumes vc: "valid_cursor ed" and k: "k \<le> length (wordBeforeCursor ed)"
  shows "take k (drop (cursor_col ed - k) (doc ed ! cursor_line ed))
         = drop (length (wordBeforeCursor ed) - k) (wordBeforeCursor ed)"
proof -
  let ?w = "wordBeforeCursor ed" and ?c = "cursor_col ed"
  let ?line = "doc ed ! cursor_line ed"
  have c: "?c \<le> length ?line"
    using vc by (simp add: valid_cursor_def cursor_line_def cursor_col_def nat_le_iff)
  from word_suffix [OF vc] obtain pre where pre: "take ?c ?line = pre @ ?w"
    by (auto simp: cursor_col_def cursor_line_def)
  have "length (take ?c ?line) = ?c" using c by simp
  then have len: "length pre + length ?w = ?c" using pre by simp
  have d: "?c - k = length pre + (length ?w - k)" using len k by arith
  have "take k (drop (?c - k) ?line) = drop (?c - k) (take ?c ?line)"
    using len k by (simp add: drop_take)
  also have "\<dots> = drop (length pre + (length ?w - k)) (pre @ ?w)" by (simp only: pre d)
  also have "\<dots> = drop (length ?w - k) ?w" by simp
  finally show ?thesis .
qed







lemma matching_prg_py: "matching (backslash # ''prg:py'') = [5]"
  by code_simp

lemma splitLines_python:
  "splitLines ''```python\<newline>\<newline>```'' = [''```python'', [], ''```'']"
  by code_simp

text \<open>
  The token \<open>\prg:py\<close> at rest. With the cursor in the document, the sixth expression at
  rest and \<open>\prg:py\<close> the token before the cursor, the seven characters before the cursor
  are the token and they are replaced by a fenced block of three lines whose opening
  fence is tagged \<open>python\<close>; the cursor is set to column 0 of the line after the
  cursor line, which is the empty middle line of the block.
\<close>

lemma prg_py_at_rest:
  assumes "valid_cursor ed" and "rule_list p" and "lastIndex (patterns p ! 5) = 0"
    and "wordBeforeCursor ed = backslash # ''prg:py''"
  shows "\<exists>p'. expand p ed
           = Inr (p', \<lparr>doc = take (cursor_line ed) (doc ed)
                         @ [take (cursor_col ed - 7) (doc ed ! cursor_line ed) @ ''```python'',
                            [],
                            ''```'' @ drop (cursor_col ed) (doc ed ! cursor_line ed)]
                         @ drop (Suc (cursor_line ed)) (doc ed),
                       cursor = \<lparr>line = line (cursor ed) + 1, ch = 0\<rparr>\<rparr>)
         \<and> 7 \<le> cursor_col ed
         \<and> take 7 (drop (cursor_col ed - 7) (doc ed ! cursor_line ed)) = backslash # ''prg:py''
         \<and> (take (cursor_line ed) (doc ed)
               @ [take (cursor_col ed - 7) (doc ed ! cursor_line ed) @ ''```python'',
                  [],
                  ''```'' @ drop (cursor_col ed) (doc ed ! cursor_line ed)]
               @ drop (Suc (cursor_line ed)) (doc ed)) ! nat (line (cursor ed) + 1) = []"
proof -
  let ?l = "cursor_line ed" and ?c = "cursor_col ed"
  have l: "?l < length (doc ed)" "line (cursor ed) = int ?l"
    using assms(1) by (simp_all add: valid_cursor_def cursor_line_def nat_less_iff)
  have c: "?c \<le> length (doc ed ! ?l)" "ch (cursor ed) = int ?c"
    using assms(1) by (simp_all add: valid_cursor_def cursor_line_def cursor_col_def nat_le_iff)
  have f: "fired (wordBeforeCursor ed) 0 (patterns p) = [5]"
    using fired_at_rest [OF assms(2), of "wordBeforeCursor ed"] assms(3,4)
    by (simp add: matching_prg_py)
  then have "5 \<in> set (fired (wordBeforeCursor ed) 0 (patterns p))" by simp
  from fired_rule_fits [OF assms(1,2) this] have k: "7 \<le> ?c"
    by (simp add: literalLength_values)
  have consumed: "take 7 (drop (?c - 7) (doc ed ! ?l)) = backslash # ''prg:py''"
    using consumed_is_word_end [OF assms(1), of 7] assms(4) by simp
  have calls: "rule_calls 5 w (getCursor ed)
        = [ReplaceRange ''```python\<newline>\<newline>```''
             \<lparr>line = int ?l, ch = int (?c - 7)\<rparr> \<lparr>line = int ?l, ch = int ?c\<rparr>,
           SetCursor \<lparr>line = line (cursor ed) + 1, ch = 0\<rparr>]" for w
    using l c k by (simp add: rule_calls_def switch_index_def fence_def getCursor_def)
  have "doc (replaceRange ''```python\<newline>\<newline>```''
               \<lparr>line = int ?l, ch = int (?c - 7)\<rparr> \<lparr>line = int ?l, ch = int ?c\<rparr> ed)
        = take ?l (doc ed)
          @ splice_lines (take (?c - 7) (doc ed ! ?l)) (splitLines ''```python\<newline>\<newline>```'')
              (drop ?c (doc ed ! ?l))
          @ drop (Suc ?l) (doc ed)"
    using l(1) c(1) by (intro replaceRange_on_line) simp_all
  also have "\<dots> = take ?l (doc ed)
          @ [take (?c - 7) (doc ed ! ?l) @ ''```python'', [], ''```'' @ drop ?c (doc ed ! ?l)]
          @ drop (Suc ?l) (doc ed)"
    by (simp only: splitLines_python) (simp add: splice_lines_def)
  finally have "run_calls (rule_calls 5 (wordBeforeCursor ed) (getCursor ed)) ed
        = \<lparr>doc = take ?l (doc ed)
                 @ [take (?c - 7) (doc ed ! ?l) @ ''```python'', [],
                    ''```'' @ drop ?c (doc ed ! ?l)]
                 @ drop (Suc ?l) (doc ed),
            cursor = \<lparr>line = line (cursor ed) + 1, ch = 0\<rparr>\<rparr>"
    by (simp add: calls run_calls_def setCursor_def replaceRange_def)
  moreover have "(take ?l (doc ed)
               @ [take (?c - 7) (doc ed ! ?l) @ ''```python'', [],
                  ''```'' @ drop ?c (doc ed ! ?l)]
               @ drop (Suc ?l) (doc ed)) ! nat (line (cursor ed) + 1) = []"
    using l by (simp add: nth_append nat_add_distrib)
  ultimately show ?thesis
    using f k consumed by (simp add: expand_def mathSimplifier_eq)
qed

lemma prg_py_at_rest_example:
  "\<exists>p'. expand onload ed_py
     = Inr (p', \<lparr>doc = [''x'', ''ab ```python'', [], ''``` tail'', ''z''],
                 cursor = \<lparr>line = 2, ch = 0\<rparr>\<rparr>)"
proof -
  have vc: "valid_cursor ed_py" by code_simp
  have li: "lastIndex (patterns onload ! 5) = 0" by code_simp
  have w: "wordBeforeCursor ed_py = backslash # ''prg:py''" by code_simp
  have d: "take (cursor_line ed_py) (doc ed_py)
           @ [take (cursor_col ed_py - 7) (doc ed_py ! cursor_line ed_py) @ ''```python'',
              [],
              ''```'' @ drop (cursor_col ed_py) (doc ed_py ! cursor_line ed_py)]
           @ drop (Suc (cursor_line ed_py)) (doc ed_py)
         = [''x'', ''ab ```python'', [], ''``` tail'', ''z'']"
    by code_simp
  have c: "\<lparr>line = line (cursor ed_py) + 1, ch = 0\<rparr> = \<lparr>line = 2, ch = 0\<rparr>"
    by code_simp
  from prg_py_at_rest [OF vc rule_list_onload li w] show ?thesis
    by (simp only: d c) blast
qed







subsection \<open>Evaluations\<close>

text \<open>
  C1: two runs on identical copies of one editor state ought to make the same
  replacements. The expressions of the rule list carry the flag \<open>g\<close>, so a test that
  succeeds stores the end of its match in \<open>lastIndex\<close> and the next test of the same
  expression starts there. The loaded plugin, run on the line \<open>arr3\<close> with the cursor at
  its end, replaces the token and leaves \<open>lastIndex\<close> 4 in the first expression; run
  again on an identical editor it makes no call and leaves that editor as it is.
\<close>

theorem C1_second_run_differs:
  "calls_of onload ed_only_arr3
     = [ReplaceRange (backslash # ''begin{array}{cc|c}'' @ backslash # ''end{array}'')
          \<lparr>line = 0, ch = 0\<rparr> \<lparr>line = 0, ch = 4\<rparr>,
        SetCursor \<lparr>line = 0, ch = - 12\<rparr>]
   \<and> lastIndex (patterns (plugin_after onload ed_only_arr3) ! 0) = 4
   \<and> calls_of (plugin_after onload ed_only_arr3) ed_only_arr3 = []
   \<and> editor_after (plugin_after onload ed_only_arr3) ed_only_arr3 = ed_only_arr3
   \<and> doc (editor_after onload ed_only_arr3)
     = [backslash # ''begin{array}{cc|c}'' @ backslash # ''end{array}'']"
  by code_simp

text \<open>
  C4: the token \<open>\defn\<close>, on the line \<open>abc \defn\<close> with the cursor at its end (column 9)
  and the loaded plugin. The five characters before the cursor are replaced by
  \<open>\stackrel{}{}\<close>, which starts at column 4, so the first pair of braces encloses column
  14; the cursor is set to column 9 - (3 + 5) = 1.
\<close>

theorem C4_defn_cursor:
  "editor_after onload ed_defn
     = \<lparr>doc = [''abc '' @ backslash # ''stackrel{}{}''], cursor = \<lparr>line = 0, ch = 1\<rparr>\<rparr>
   \<and> calls_of onload ed_defn
     = [ReplaceRange (backslash # ''stackrel{}{}'') \<lparr>line = 0, ch = 4\<rparr> \<lparr>line = 0, ch = 9\<rparr>,
        SetCursor \<lparr>line = 0, ch = 1\<rparr>]
   \<and> take 14 (''abc '' @ backslash # ''stackrel{}{}'') = ''abc '' @ backslash # ''stackrel{''"
  by code_simp

text \<open>
  C5: a token in which two patterns occur ought to get one replacement per pattern. The
  patterns of rules 0 and 2 occur in the token \<open>arr3\pars\<close>, and the loaded plugin makes
  both replacements, each on the span before the cursor column 9 read before the loop.
  The plugin that has expanded \<open>arr3\<close> once holds \<open>lastIndex\<close> 4 in the first
  expression; on the same token it makes the replacement of rule 2 only.
\<close>

theorem C5_stale_rule_is_skipped:
  "matching (wordBeforeCursor ed_two) = [0, 2]
   \<and> calls_of onload ed_two
     = [ReplaceRange (backslash # ''begin{array}{}'' @ backslash # ''end{array}'')
          \<lparr>line = 0, ch = 5\<rparr> \<lparr>line = 0, ch = 9\<rparr>,
        SetCursor \<lparr>line = 0, ch = - 7\<rparr>,
        ReplaceRange (backslash # ''left('' @ backslash # ''right)'')
          \<lparr>line = 0, ch = 4\<rparr> \<lparr>line = 0, ch = 9\<rparr>,
        SetCursor \<lparr>line = 0, ch = - 3\<rparr>]
   \<and> lastIndex (patterns (plugin_after onload ed_first_arr3) ! 0) = 4
   \<and> calls_of (plugin_after onload ed_first_arr3) ed_two
     = [ReplaceRange (backslash # ''left('' @ backslash # ''right)'')
          \<lparr>line = 0, ch = 4\<rparr> \<lparr>line = 0, ch = 9\<rparr>,
        SetCursor \<lparr>line = 0, ch = - 3\<rparr>]"
  by code_simp

text \<open>
  C8: the token \<open>\prg:py\<close> ought to be replaced whenever it stands before the cursor.
  The loaded plugin expands it and sets the cursor to the empty middle line of the
  block; a run on the editor so left tests nothing, and the sixth expression keeps
  \<open>lastIndex\<close> 7. With the token put on that middle line and the cursor after it, this
  plugin makes no call.
\<close>

theorem C8_prg_py_after_prg_py:
  "editor_after onload ed_py
     = \<lparr>doc = [''x'', ''ab ```python'', [], ''``` tail'', ''z''], cursor = \<lparr>line = 2, ch = 0\<rparr>\<rparr>
   \<and> plugin_after (plugin_after onload ed_py) (editor_after onload ed_py)
     = plugin_after onload ed_py
   \<and> lastIndex (patterns (plugin_after onload ed_py) ! 5) = 7
   \<and> wordBeforeCursor ed_py_pasted = backslash # ''prg:py''
   \<and> calls_of (plugin_after onload ed_py) ed_py_pasted = []
   \<and> editor_after (plugin_after onload ed_py) ed_py_pasted = ed_py_pasted"
  by code_simp


end
